theory Spec2Isabelle
  imports Complex_Main "HOL-Library.AList" "HOL-Library.Multiset" "HOL-Library.Signed_Division"
begin

section \<open>pingmeter: the metrics sink\<close>

text \<open>
  The program (\<^verbatim>\<open>main.go\<close>) keeps four Prometheus vectors labelled by \<^verbatim>\<open>host\<close>:
  three counters and one gauge. \<^verbatim>\<open>WithLabelValues(host)\<close> creates the child of a label on
  first use, with value zero; \<^verbatim>\<open>Inc\<close> adds one to a counter and \<^verbatim>\<open>Set\<close> overwrites a
  gauge. A vector is modelled as a partial map from labels to values, a label being absent
  until its first observation. The counters are natural numbers; the gauge holds the exact
  real number whose \<^verbatim>\<open>float64\<close> approximation the program stores.
\<close>

type_synonym counter_vec = "string \<rightharpoonup> nat"

type_synonym gauge_vec = "string \<rightharpoonup> real"

text \<open>\<^verbatim>\<open>v.WithLabelValues(l).Inc()\<close>\<close>

definition Inc :: "counter_vec \<Rightarrow> string \<Rightarrow> counter_vec" where
  "Inc v l = v(l \<mapsto> (case v l of None \<Rightarrow> 1 | Some n \<Rightarrow> n + 1))"

text \<open>\<^verbatim>\<open>v.WithLabelValues(l).Set(x)\<close>\<close>

definition Set_gauge :: "gauge_vec \<Rightarrow> string \<Rightarrow> real \<Rightarrow> gauge_vec" where
  "Set_gauge v l x = v(l \<mapsto> x)"

text \<open>What a scrape reads for a label: a child that was never created has no sample,
  which counts as zero.\<close>

definition counter_value :: "counter_vec \<Rightarrow> string \<Rightarrow> nat" where
  "counter_value v l = (case v l of None \<Rightarrow> 0 | Some n \<Rightarrow> n)"

definition gauge_value :: "gauge_vec \<Rightarrow> string \<Rightarrow> real" where
  "gauge_value v l = (case v l of None \<Rightarrow> 0 | Some x \<Rightarrow> x)"

text \<open>
  \<^verbatim>\<open>type metrics struct { ok, ng, total *prometheus.CounterVec; rtt *prometheus.GaugeVec }\<close>.
  The fields carry the suffix \<open>_vec\<close>: \<open>total\<close> is a constant of HOL, and \<open>ok\<close> and
  \<open>rtt\<close> are also fields of \<^verbatim>\<open>result\<close>.
\<close>

record metrics =
  ok_vec :: counter_vec
  ng_vec :: counter_vec
  total_vec :: counter_vec
  rtt_vec :: gauge_vec

text \<open>\<^verbatim>\<open>newMetrics\<close>: four fresh vectors, no label observed yet.\<close>

definition newMetrics :: metrics where
  "newMetrics = \<lparr>ok_vec = Map.empty, ng_vec = Map.empty, total_vec = Map.empty,
                 rtt_vec = Map.empty\<rparr>"

text \<open>
  \<^verbatim>\<open>time.Duration\<close> is a count of nanoseconds (an \<^verbatim>\<open>int64\<close>; the program does no
  arithmetic on it that could overflow). \<^verbatim>\<open>Duration.Seconds\<close> is
  \<^verbatim>\<open>float64(d / Second) + float64(d % Second) / 1e9\<close>, with Go's truncating division.
\<close>

type_synonym duration = int

definition Second :: duration where
  "Second = 1000000000"

definition Seconds :: "duration \<Rightarrow> real" where
  "Seconds d = real_of_int (d sdiv Second) + real_of_int (d smod Second) / 1000000000"

text \<open>
  \<^verbatim>\<open>
  func (m *metrics) update(host string, ok bool, rtt time.Duration) {
      m.total.WithLabelValues(host).Inc()
      if ok {
          m.ok.WithLabelValues(host).Inc()
          m.rtt.WithLabelValues(host).Set(rtt.Seconds() * 1000)
      } else {
          m.ng.WithLabelValues(host).Inc()
          m.rtt.WithLabelValues(host).Set(0)
      }
  }
  \<close>
\<close>

definition update :: "metrics \<Rightarrow> string \<Rightarrow> bool \<Rightarrow> duration \<Rightarrow> metrics" where
  "update m host ok rtt =
     (let m1 = m\<lparr>total_vec := Inc (total_vec m) host\<rparr> in
      if ok then
        (let m2 = m1\<lparr>ok_vec := Inc (ok_vec m1) host\<rparr> in
         m2\<lparr>rtt_vec := Set_gauge (rtt_vec m2) host (Seconds rtt * 1000)\<rparr>)
      else
        (let m2 = m1\<lparr>ng_vec := Inc (ng_vec m1) host\<rparr> in
         m2\<lparr>rtt_vec := Set_gauge (rtt_vec m2) host 0\<rparr>))"

section \<open>Pending results and the target list\<close>

text \<open>\<^verbatim>\<open>type result struct { host string; ok bool; rtt time.Duration }\<close>\<close>

record result =
  host :: string
  ok :: bool
  rtt :: duration

text \<open>Go's \<^verbatim>\<open>error\<close> values, by their message.\<close>

datatype error = Error string

subsection \<open>Slices of strings\<close>

text \<open>
  \<^verbatim>\<open>targetList.read\<close> truncates \<^verbatim>\<open>t.items\<close> with \<^verbatim>\<open>t.items[:0]\<close> and appends to it, so
  the backing array matters. A \<^verbatim>\<open>[]string\<close> is a slice header: the address of its
  backing array, a length and a capacity. The heap is the list of the backing arrays
  allocated so far, an address being an index into it. The nil slice has length and
  capacity zero and no backing array (its address is never read).
\<close>

type_synonym heap = "string list list"

record slice =
  ptr :: nat
  len :: nat
  cap :: nat

definition nil :: slice where
  "nil = \<lparr>ptr = 0, len = 0, cap = 0\<rparr>"

text \<open>The elements a holder of the slice header \<open>s\<close> reads in the heap \<open>h\<close>.\<close>

definition elems :: "heap \<Rightarrow> slice \<Rightarrow> string list" where
  "elems h s = take (len s) (h ! ptr s)"

text \<open>
  \<^verbatim>\<open>append(s, x)\<close>: with spare capacity the element is written into the backing array in
  place; otherwise a new, sufficiently large array is allocated and the elements are
  copied. How much larger is the runtime's choice, the parameter \<open>grow\<close> (on the old
  capacity); the new capacity is never less than what is needed.
\<close>

definition append_go :: "(nat \<Rightarrow> nat) \<Rightarrow> heap \<Rightarrow> slice \<Rightarrow> string \<Rightarrow> heap \<times> slice" where
  "append_go grow h s x =
     (if len s < cap s then
        (h[ptr s := (h ! ptr s)[len s := x]], s\<lparr>len := len s + 1\<rparr>)
      else
        (let c = max (len s + 1) (grow (cap s)) in
         (h @ [take (len s) (h ! ptr s) @ x # replicate (c - (len s + 1)) []],
          \<lparr>ptr = length h, len = len s + 1, cap = c\<rparr>)))"

text \<open>\<^verbatim>\<open>bytes.Split(b, []byte{sep})\<close>: the pieces between the separators, one more than
  there are separators.\<close>

fun Split :: "string \<Rightarrow> char \<Rightarrow> string list" where
  "Split [] sep = [[]]"
| "Split (c # cs) sep =
     (if c = sep then [] # Split cs sep
      else (case Split cs sep of [] \<Rightarrow> [[c]] | w # ws \<Rightarrow> (c # w) # ws))"

subsection \<open>The target list\<close>

text \<open>
  \<^verbatim>\<open>type targetList struct { items []string; path string; mtime time.Time }\<close>.
  A \<^verbatim>\<open>time.Time\<close> is an instant, counted from the zero value of the type.
  The file system answers \<^verbatim>\<open>os.Stat\<close> with an error or the file's modification time
  (the only field of the \<^verbatim>\<open>FileInfo\<close> that is used), and \<^verbatim>\<open>ioutil.ReadFile\<close> with an
  error or the file's bytes.
\<close>

type_synonym time = int

record targetList =
  items :: slice
  path :: string
  mtime :: time

record filesystem =
  Stat :: "string \<Rightarrow> error + time"
  ReadFile :: "string \<Rightarrow> error + string"

text \<open>
  The body of the \<^verbatim>\<open>range\<close> loop of \<^verbatim>\<open>read\<close>:
  \<^verbatim>\<open>if len(item) > 0 { t.items = append(t.items, string(item)) }\<close>
\<close>

definition read_item :: "(nat \<Rightarrow> nat) \<Rightarrow> string \<Rightarrow> heap \<times> targetList \<Rightarrow> heap \<times> targetList" where
  "read_item grow item st =
     (case st of (h, t) \<Rightarrow>
        if length item > 0 then
          (case append_go grow h (items t) item of (h', s') \<Rightarrow> (h', t\<lparr>items := s'\<rparr>))
        else (h, t))"

text \<open>
  \<^verbatim>\<open>
  func (t *targetList) read() {
      fi, err := os.Stat(t.path)
      if err != nil { log.Print(err); return }
      mtime := fi.ModTime()
      if !mtime.After(t.mtime) { return }
      t.mtime = mtime
      b, err := ioutil.ReadFile(t.path)
      if err != nil { log.Print(err); return }
      t.items = t.items[:0]
      for _, item := range bytes.Split(b, []byte{'\n'}) {
          if len(item) > 0 { t.items = append(t.items, string(item)) }
      }
      log.Print("target list updated")
  }
  \<close>
  The log is not part of the state.
\<close>

definition read :: "(nat \<Rightarrow> nat) \<Rightarrow> filesystem \<Rightarrow> heap \<times> targetList \<Rightarrow> heap \<times> targetList" where
  "read grow fs st =
     (case st of (h, t) \<Rightarrow>
        (case Stat fs (path t) of
           Inl err \<Rightarrow> (h, t)
         | Inr mt \<Rightarrow>
             if \<not> mt > mtime t then (h, t)
             else
               (let t1 = t\<lparr>mtime := mt\<rparr> in
                case ReadFile fs (path t1) of
                  Inl err \<Rightarrow> (h, t1)
                | Inr b \<Rightarrow>
                    (let t2 = t1\<lparr>items := (items t1)\<lparr>len := 0\<rparr>\<rparr> in
                     fold (read_item grow) (Split b CHR 0x0A) (h, t2)))))"

section \<open>One batch of probes\<close>

text \<open>
  \<^verbatim>\<open>net.ResolveIPAddr("ip:icmp", host)\<close> returns an address and a nil error, or a nil
  address and an error. An address is identified with its string form, which is all the
  program uses of it; \<^verbatim>\<open>(*IPAddr).String\<close> of the nil address is \<^verbatim>\<open><nil>\<close>.
  The resolver is outside the program and is asked once for every entry of the list, so
  it may answer differently for two entries with the same name: \<open>resolve n h\<close> is
  its answer to the lookup number \<open>n\<close> of the batch (counted from zero), asked for the
  host \<open>h\<close>.
\<close>

type_synonym resolver = "nat \<Rightarrow> string \<Rightarrow> error + string"

definition String :: "error + string \<Rightarrow> string" where
  "String ra = (case ra of Inl err \<Rightarrow> ''<nil>'' | Inr a \<Rightarrow> a)"

text \<open>The key under which \<^verbatim>\<open>ping\<close> files the entry of lookup \<open>n\<close>: \<^verbatim>\<open>ra.String()\<close> of
  what the host resolves to.\<close>

definition key :: "resolver \<Rightarrow> nat \<Rightarrow> string \<Rightarrow> string" where
  "key resolve n h = String (resolve n h)"

text \<open>
  \<^verbatim>\<open>results := make(map[string]*result)\<close>. Every pointer in the map is to a record of its
  own, reachable only through its key, so the map is modelled as an association list with
  the records as values; assigning to a key replaces its value or adds the key.
\<close>

type_synonym results = "(string \<times> result) list"

text \<open>
  \<^verbatim>\<open>
  p.OnRecv = func(addr *net.IPAddr, rtt time.Duration) {
      if result, ok := results[addr.String()]; ok {
          result.ok = true
          result.rtt = rtt
      }
  }
  \<close>
\<close>

definition OnRecv :: "results \<Rightarrow> string \<Rightarrow> duration \<Rightarrow> results" where
  "OnRecv results addr d =
     (case map_of results addr of
        Some r \<Rightarrow> AList.update addr (r\<lparr>ok := True, rtt := d\<rparr>) results
      | None \<Rightarrow> results)"

text \<open>
  The loop over the hosts; \<open>p\<close> is the list of the addresses given to \<^verbatim>\<open>p.AddIPAddr\<close>
  and \<open>n\<close> the number of lookups made before.
  \<^verbatim>\<open>
  for _, host := range hosts {
      ra, err := net.ResolveIPAddr("ip:icmp", host)
      results[ra.String()] = &result{host: host}
      if err == nil { p.AddIPAddr(ra) }
  }
  \<close>
\<close>

fun ping_hosts ::
  "resolver \<Rightarrow> nat \<Rightarrow> string list \<Rightarrow> results \<times> string list \<Rightarrow> results \<times> string list" where
  "ping_hosts resolve n [] st = st"
| "ping_hosts resolve n (h # hosts) (results, p) =
     (let ra = resolve n h;
          results' = AList.update (String ra) \<lparr>host = h, ok = False, rtt = 0\<rparr> results;
          p' = (case ra of Inl err \<Rightarrow> p | Inr a \<Rightarrow> p @ [a])
      in ping_hosts resolve (Suc n) hosts (results', p'))"

text \<open>
  \<^verbatim>\<open>p.Run()\<close> blocks, calls \<^verbatim>\<open>OnRecv\<close> for each reply the transport delivers, in the
  goroutine of the caller, and returns an error or nil. The transport is outside the
  program: what it delivers is the list \<open>replies\<close> (address and round-trip time, in the
  order of delivery) and what it returns is \<open>run_err\<close>.
\<close>

definition Run_callbacks :: "(string \<times> duration) list \<Rightarrow> results \<Rightarrow> results" where
  "Run_callbacks replies results = fold (\<lambda>(addr, d) rs. OnRecv rs addr d) replies results"

text \<open>
  The deferred function:
  \<^verbatim>\<open>for _, r := range results { pingMetrics.update(r.host, r.ok, r.rtt) }\<close>.
  Go ranges over a map in an unspecified order; the model takes the order of the
  association list. The counters do not depend on the order (\<open>counters_any_order\<close>
  below), and neither does the sink as a whole when the records carry different labels
  (\<open>ping_deferred_any_order\<close>); the gauge of a label depends on it only when two records
  of one batch carry that label, one name having resolved to two addresses.
\<close>

definition ping_deferred :: "metrics \<Rightarrow> result list \<Rightarrow> metrics" where
  "ping_deferred m rs = fold (\<lambda>r m. update m (host r) (ok r) (rtt r)) rs m"

text \<open>The correlator map after the loop over the hosts, and after the replies.\<close>

definition ping_registered :: "resolver \<Rightarrow> string list \<Rightarrow> results" where
  "ping_registered resolve hosts = fst (ping_hosts resolve 0 hosts ([], []))"

definition ping_submitted :: "resolver \<Rightarrow> string list \<Rightarrow> string list" where
  "ping_submitted resolve hosts = snd (ping_hosts resolve 0 hosts ([], []))"

definition ping_results :: "resolver \<Rightarrow> (string \<times> duration) list \<Rightarrow> string list \<Rightarrow> results" where
  "ping_results resolve replies hosts = Run_callbacks replies (ping_registered resolve hosts)"

text \<open>
  \<^verbatim>\<open>
  func ping(hosts []string) error {
      results := make(map[string]*result)
      p := fastping.NewPinger()
      p.MaxRTT = *pingTimeout
      p.OnRecv = func(...) {...}
      for _, host := range hosts {...}
      defer func() {
          for _, r := range results { pingMetrics.update(r.host, r.ok, r.rtt) }
      }()
      return p.Run()
  }
  \<close>
  The global \<^verbatim>\<open>pingMetrics\<close> is passed in and returned. The deferred function runs when
  \<^verbatim>\<open>ping\<close> returns, after \<^verbatim>\<open>p.Run()\<close> and whatever \<^verbatim>\<open>p.Run()\<close> returned.
\<close>

definition ping ::
  "resolver \<Rightarrow> (string \<times> duration) list \<Rightarrow> error option \<Rightarrow> metrics \<Rightarrow> string list
     \<Rightarrow> metrics \<times> error option" where
  "ping resolve replies run_err pingMetrics hosts =
     (let results = ping_results resolve replies hosts in
      (ping_deferred pingMetrics (map snd results), run_err))"

section \<open>The driver loop\<close>

text \<open>
  \<^verbatim>\<open>
  func pingLoop(path string) {
      t := &targetList{path: path}
      t.read()
      ping(t.items)
      for _ = range time.Tick(*pingInterval) {
          t.read()
          ping(t.items)
      }
  }
  \<close>
  The loop never ends. What the outside world answers during one round (the file system,
  the resolver, the transport) is a \<open>round\<close>; \<open>pingLoop\<close> gives the state (the heap, the
  target list \<^verbatim>\<open>t\<close> and the global \<^verbatim>\<open>pingMetrics\<close>) after the rounds played so far, the
  first being the one before the ticker. The error returned by
  \<^verbatim>\<open>ping\<close> is dropped, as in the source.
\<close>

record round =
  round_fs :: filesystem
  round_resolve :: resolver
  round_replies :: "(string \<times> duration) list"
  round_err :: "error option"

record state =
  mem :: heap
  targets :: targetList
  pingMetrics :: metrics

definition pingLoop_round :: "(nat \<Rightarrow> nat) \<Rightarrow> round \<Rightarrow> state \<Rightarrow> state" where
  "pingLoop_round grow r st =
     (case read grow (round_fs r) (mem st, targets st) of (h', t') \<Rightarrow>
        \<lparr>mem = h', targets = t',
         pingMetrics = fst (ping (round_resolve r) (round_replies r) (round_err r)
                              (pingMetrics st) (elems h' (items t')))\<rparr>)"

definition pingLoop_start :: "string \<Rightarrow> state" where
  "pingLoop_start p =
     \<lparr>mem = [], targets = \<lparr>items = nil, path = p, mtime = 0\<rparr>,
      pingMetrics = newMetrics\<rparr>"

definition pingLoop :: "(nat \<Rightarrow> nat) \<Rightarrow> string \<Rightarrow> round list \<Rightarrow> state" where
  "pingLoop grow p rounds = fold (pingLoop_round grow) rounds (pingLoop_start p)"

section \<open>Notions used in the statements\<close>

text \<open>A label is balanced in a sink when its total-attempts counter is the sum of its
  success and failure counters.\<close>

definition balanced :: "metrics \<Rightarrow> string \<Rightarrow> bool" where
  "balanced m l \<longleftrightarrow>
     counter_value (total_vec m) l = counter_value (ok_vec m) l + counter_value (ng_vec m) l"

text \<open>A sequence of calls of \<open>update\<close>, each with its host, flag and round-trip time.\<close>

definition updates :: "(string \<times> bool \<times> duration) list \<Rightarrow> metrics \<Rightarrow> metrics" where
  "updates calls m = fold (\<lambda>(h, b, d) m. update m h b d) calls m"

text \<open>
  The entries of a batch as \<open>ping\<close> files them: each host of the list with the key of its
  lookup, in the order of the list.
\<close>

fun filed :: "resolver \<Rightarrow> nat \<Rightarrow> string list \<Rightarrow> (string \<times> string) list" where
  "filed resolve n [] = []"
| "filed resolve n (h # hosts) = (h, key resolve n h) # filed resolve (Suc n) hosts"

text \<open>The different keys under which the entries with the name \<open>l\<close> are filed.\<close>

definition keys_of :: "string \<Rightarrow> (string \<times> string) list \<Rightarrow> string list" where
  "keys_of l es = remdups (map snd (filter (\<lambda>e. fst e = l) es))"

text \<open>The names of a batch are apart when no key is shared by entries of different
  names.\<close>

definition names_apart :: "(string \<times> string) list \<Rightarrow> bool" where
  "names_apart es \<longleftrightarrow> (\<forall>e \<in> set es. \<forall>e' \<in> set es. snd e = snd e' \<longrightarrow> fst e = fst e')"

text \<open>
  The two halves of a call of \<open>update\<close>: the sink after its first statement, the increment
  of the total, and the rest of the call, the branch on the flag.
\<close>

definition update_begun :: "metrics \<Rightarrow> string \<Rightarrow> metrics" where
  "update_begun m h = m\<lparr>total_vec := Inc (total_vec m) h\<rparr>"

definition update_finish :: "metrics \<Rightarrow> string \<Rightarrow> bool \<Rightarrow> duration \<Rightarrow> metrics" where
  "update_finish m1 h b d =
     (if b then
        (let m2 = m1\<lparr>ok_vec := Inc (ok_vec m1) h\<rparr> in
         m2\<lparr>rtt_vec := Set_gauge (rtt_vec m2) h (Seconds d * 1000)\<rparr>)
      else
        (let m2 = m1\<lparr>ng_vec := Inc (ng_vec m1) h\<rparr> in
         m2\<lparr>rtt_vec := Set_gauge (rtt_vec m2) h 0\<rparr>))"

text \<open>
  A slice header is valid in a heap when its length is within its capacity and, unless
  the capacity is zero, its address is that of an allocated array of exactly the capacity.
\<close>

definition valid :: "heap \<Rightarrow> slice \<Rightarrow> bool" where
  "valid h s \<longleftrightarrow>
     len s \<le> cap s \<and> (cap s = 0 \<or> (ptr s < length h \<and> length (h ! ptr s) = cap s))"

text \<open>Appending the elements of a list one after the other.\<close>

definition append_all :: "(nat \<Rightarrow> nat) \<Rightarrow> string list \<Rightarrow> heap \<times> slice \<Rightarrow> heap \<times> slice" where
  "append_all grow xs st = fold (\<lambda>x (h, s). append_go grow h s x) xs st"

text \<open>The entries of a target file: its lines, the empty ones left out.\<close>

definition entries :: "string \<Rightarrow> string list" where
  "entries b = filter (\<lambda>item. item \<noteq> []) (Split b CHR 0x0A)"

section \<open>Concrete inputs for the examples\<close>

text \<open>The growth of small slices in Go's runtime: a first element, then doubling.\<close>

definition go_grow :: "nat \<Rightarrow> nat" where
  "go_grow c = (if c = 0 then 1 else 2 * c)"

text \<open>A resolver for address literals (each resolves to itself), one that resolves
  nothing, and one that resolves address literals and fails for the name
  \<^verbatim>\<open>nowhere.invalid\<close>.\<close>

definition resolve_literal :: resolver where
  "resolve_literal n h = Inr h"

definition resolve_none :: resolver where
  "resolve_none n h = Inl (Error ''no such host'')"

definition resolve_but_one :: resolver where
  "resolve_but_one n h =
     (if h = ''nowhere.invalid'' then Inl (Error ''no such host'') else Inr h)"

text \<open>A file system whose file has modification time \<open>mt\<close> and the given content, and
  one whose file has modification time \<open>mt\<close> and cannot be read.\<close>

definition file_at :: "time \<Rightarrow> string \<Rightarrow> filesystem" where
  "file_at mt content = \<lparr>Stat = (\<lambda>p. Inr mt), ReadFile = (\<lambda>p. Inr content)\<rparr>"

definition unreadable_at :: "time \<Rightarrow> filesystem" where
  "unreadable_at mt = \<lparr>Stat = (\<lambda>p. Inr mt), ReadFile = (\<lambda>p. Inl (Error ''read error''))\<rparr>"

text \<open>The target list of a fresh \<^verbatim>\<open>pingLoop\<close>, and its state after a first load of a
  file with the two lines \<^verbatim>\<open>a\<close> and \<^verbatim>\<open>b\<close>.\<close>

definition fresh_targets :: "heap \<times> targetList" where
  "fresh_targets = ([], \<lparr>items = nil, path = ''targets'', mtime = 0\<rparr>)"

definition loaded_ab :: "heap \<times> targetList" where
  "loaded_ab = read go_grow (file_at 100 ''a\<newline>b\<newline>'') fresh_targets"

text \<open>The state after a second load, of a file with the three lines \<^verbatim>\<open>c\<close>, \<^verbatim>\<open>d\<close> and
  \<^verbatim>\<open>e\<close>, for which the list has to grow.\<close>

definition loaded_cde :: "heap \<times> targetList" where
  "loaded_cde = read go_grow (file_at 200 ''c\<newline>d\<newline>e\<newline>'') loaded_ab"

section \<open>Properties of the metrics sink\<close>

lemma counter_value_Inc:
  "counter_value (Inc v l) l' = counter_value v l' + (if l' = l then 1 else 0)"
  by (simp add: counter_value_def Inc_def split: option.splits)

lemma gauge_value_Set_gauge:
  "gauge_value (Set_gauge v l x) l' = (if l' = l then x else gauge_value v l')"
  by (simp add: gauge_value_def Set_gauge_def)

lemma Seconds_exact: "Seconds d = real_of_int d / 1000000000"
proof -
  have "d = (d sdiv Second) * Second + d smod Second"
    by (simp add: sdiv_mult_smod_eq)
  then have "real_of_int d = real_of_int (d sdiv Second) * 1000000000 + real_of_int (d smod Second)"
    by (metis Second_def of_int_add of_int_mult of_int_numeral)
  then show ?thesis
    by (simp add: Seconds_def field_simps)
qed

lemma milliseconds: "Seconds d * 1000 = real_of_int d / 1000000"
  by (simp add: Seconds_exact)

lemma total_update:
  "counter_value (total_vec (update m h b d)) l =
     counter_value (total_vec m) l + (if l = h then 1 else 0)"
  by (simp add: update_def Let_def counter_value_Inc)

lemma ok_update:
  "counter_value (ok_vec (update m h b d)) l =
     counter_value (ok_vec m) l + (if l = h \<and> b then 1 else 0)"
  by (simp add: update_def Let_def counter_value_Inc)

lemma ng_update:
  "counter_value (ng_vec (update m h b d)) l =
     counter_value (ng_vec m) l + (if l = h \<and> \<not> b then 1 else 0)"
  by (simp add: update_def Let_def counter_value_Inc)

lemma rtt_update:
  "gauge_value (rtt_vec (update m h b d)) l =
     (if l = h then (if b then real_of_int d / 1000000 else 0) else gauge_value (rtt_vec m) l)"
  by (simp add: update_def Let_def gauge_value_Set_gauge milliseconds)

text \<open>
  Claim C4. Every call of \<open>update\<close> for a host label adds one to the total-attempts
  counter of that label. With the success flag set it also adds one to the success counter
  (the failure counter stays) and sets the RTT gauge to the round-trip time in milliseconds
  (nanoseconds divided by \<open>10\<^sup>6\<close>); with the flag unset it adds one to the failure counter
  (the success counter stays) and sets the gauge to zero, whatever the gauge held before,
  so a failure after an earlier success with a nonzero RTT reads zero.
\<close>

theorem update_counts_and_gauge:
  "counter_value (total_vec (update m h b d)) h = counter_value (total_vec m) h + 1
   \<and> counter_value (ok_vec (update m h b d)) h
       = counter_value (ok_vec m) h + (if b then 1 else 0)
   \<and> counter_value (ng_vec (update m h b d)) h
       = counter_value (ng_vec m) h + (if b then 0 else 1)
   \<and> gauge_value (rtt_vec (update m h b d)) h = (if b then real_of_int d / 1000000 else 0)
   \<and> gauge_value (rtt_vec (update (update m h True d') h False d)) h = 0"
  by (simp add: total_update ok_update ng_update rtt_update)

theorem update_counts_and_gauge_witness:
  "gauge_value (rtt_vec (update newMetrics ''10.0.0.1'' True 2000000)) ''10.0.0.1'' = 2
   \<and> gauge_value (rtt_vec (update (update newMetrics ''10.0.0.1'' True 2000000)
                                   ''10.0.0.1'' False 0)) ''10.0.0.1'' = 0
   \<and> counter_value (total_vec (update (update newMetrics ''10.0.0.1'' True 2000000)
                                   ''10.0.0.1'' False 0)) ''10.0.0.1'' = 2
   \<and> counter_value (ok_vec (update (update newMetrics ''10.0.0.1'' True 2000000)
                                   ''10.0.0.1'' False 0)) ''10.0.0.1'' = 1
   \<and> counter_value (ng_vec (update (update newMetrics ''10.0.0.1'' True 2000000)
                                   ''10.0.0.1'' False 0)) ''10.0.0.1'' = 1"
  using update_counts_and_gauge [of newMetrics "''10.0.0.1''" True 2000000 0]
    update_counts_and_gauge [of "update newMetrics ''10.0.0.1'' True 2000000" "''10.0.0.1''"
      False 0 0]
  by (simp add: newMetrics_def counter_value_def)

section \<open>Properties of a batch and of the loop: the counters\<close>

lemma total_ping_deferred:
  "counter_value (total_vec (ping_deferred m rs)) l =
     counter_value (total_vec m) l + length (filter (\<lambda>r. host r = l) rs)"
  by (induction rs arbitrary: m) (simp_all add: ping_deferred_def total_update)

lemma ok_ping_deferred:
  "counter_value (ok_vec (ping_deferred m rs)) l =
     counter_value (ok_vec m) l + length (filter (\<lambda>r. host r = l \<and> ok r) rs)"
  by (induction rs arbitrary: m) (simp_all add: ping_deferred_def ok_update)

lemma ng_ping_deferred:
  "counter_value (ng_vec (ping_deferred m rs)) l =
     counter_value (ng_vec m) l + length (filter (\<lambda>r. host r = l \<and> \<not> ok r) rs)"
  by (induction rs arbitrary: m) (simp_all add: ping_deferred_def ng_update)

lemma length_filter_split:
  "length (filter P xs) =
     length (filter (\<lambda>x. P x \<and> Q x) xs) + length (filter (\<lambda>x. P x \<and> \<not> Q x) xs)"
  by (induction xs) simp_all

lemma balanced_update: "balanced m l \<Longrightarrow> balanced (update m h b d) l"
  by (simp add: balanced_def total_update ok_update ng_update)

lemma balanced_updates: "balanced m l \<Longrightarrow> balanced (updates calls m) l"
  by (induction calls arbitrary: m) (auto simp: updates_def balanced_update)

lemma balanced_ping_deferred: "balanced m l \<Longrightarrow> balanced (ping_deferred m rs) l"
  unfolding balanced_def total_ping_deferred ok_ping_deferred ng_ping_deferred
  using length_filter_split [of "\<lambda>r. host r = l" rs ok] by simp

lemma balanced_ping: "balanced m l \<Longrightarrow> balanced (fst (ping rsv rps e m hs)) l"
  by (simp add: ping_def Let_def balanced_ping_deferred)

lemma balanced_newMetrics: "balanced newMetrics l"
  by (simp add: balanced_def newMetrics_def counter_value_def)

lemma pingMetrics_round:
  "pingMetrics (pingLoop_round grow r st) =
     fst (ping (round_resolve r) (round_replies r) (round_err r) (pingMetrics st)
            (elems (fst (read grow (round_fs r) (mem st, targets st)))
               (items (snd (read grow (round_fs r) (mem st, targets st))))))"
  by (simp add: pingLoop_round_def split: prod.splits)

lemma balanced_rounds:
  "balanced (pingMetrics st) l \<Longrightarrow>
   balanced (pingMetrics (fold (pingLoop_round grow) rounds st)) l"
  by (induction rounds arbitrary: st) (simp_all add: pingMetrics_round balanced_ping)

lemma update_mono:
  "counter_value (total_vec m) l \<le> counter_value (total_vec (update m h b d)) l"
  "counter_value (ok_vec m) l \<le> counter_value (ok_vec (update m h b d)) l"
  "counter_value (ng_vec m) l \<le> counter_value (ng_vec (update m h b d)) l"
  by (simp_all add: total_update ok_update ng_update)

lemma ping_mono:
  "counter_value (total_vec m) l \<le> counter_value (total_vec (fst (ping rsv rps e m hs))) l"
  "counter_value (ok_vec m) l \<le> counter_value (ok_vec (fst (ping rsv rps e m hs))) l"
  "counter_value (ng_vec m) l \<le> counter_value (ng_vec (fst (ping rsv rps e m hs))) l"
  by (simp_all add: ping_def Let_def total_ping_deferred ok_ping_deferred ng_ping_deferred)

lemma rounds_mono:
  "counter_value (total_vec (pingMetrics st)) l
     \<le> counter_value (total_vec (pingMetrics (fold (pingLoop_round grow) rounds st))) l
   \<and> counter_value (ok_vec (pingMetrics st)) l
     \<le> counter_value (ok_vec (pingMetrics (fold (pingLoop_round grow) rounds st))) l
   \<and> counter_value (ng_vec (pingMetrics st)) l
     \<le> counter_value (ng_vec (pingMetrics (fold (pingLoop_round grow) rounds st))) l"
proof (induction rounds arbitrary: st)
  case Nil
  show ?case by simp
next
  case (Cons r rounds)
  let ?st = "pingLoop_round grow r st"
  have "counter_value (total_vec (pingMetrics st)) l
          \<le> counter_value (total_vec (pingMetrics ?st)) l"
    and "counter_value (ok_vec (pingMetrics st)) l \<le> counter_value (ok_vec (pingMetrics ?st)) l"
    and "counter_value (ng_vec (pingMetrics st)) l \<le> counter_value (ng_vec (pingMetrics ?st)) l"
    by (simp_all add: pingMetrics_round ping_mono)
  with Cons.IH [of ?st] show ?case
    by simp
qed

text \<open>
  Claim C9. For every host label the total-attempts, success and failure counters never
  decrease: a call of \<open>update\<close> leaves each of the three at least as large as it was, and
  so does every further stretch of rounds of the driver loop (the counters after the
  rounds \<open>rounds @ later\<close> are at least those after \<open>rounds\<close>). Nothing else in the
  program writes to the sink.
\<close>

theorem counters_non_decreasing:
  "counter_value (total_vec m) l \<le> counter_value (total_vec (update m h b d)) l
   \<and> counter_value (ok_vec m) l \<le> counter_value (ok_vec (update m h b d)) l
   \<and> counter_value (ng_vec m) l \<le> counter_value (ng_vec (update m h b d)) l
   \<and> counter_value (total_vec (pingMetrics (pingLoop grow p rounds))) l
       \<le> counter_value (total_vec (pingMetrics (pingLoop grow p (rounds @ later)))) l
   \<and> counter_value (ok_vec (pingMetrics (pingLoop grow p rounds))) l
       \<le> counter_value (ok_vec (pingMetrics (pingLoop grow p (rounds @ later)))) l
   \<and> counter_value (ng_vec (pingMetrics (pingLoop grow p rounds))) l
       \<le> counter_value (ng_vec (pingMetrics (pingLoop grow p (rounds @ later)))) l"
  using rounds_mono [of "pingLoop grow p rounds" l grow later]
  by (simp add: update_mono pingLoop_def)

lemma update_split: "update m h b d = update_finish (update_begun m h) h b d"
  by (simp add: update_def update_begun_def update_finish_def)

lemma counters_update_begun:
  "counter_value (total_vec (update_begun m h)) l
     = counter_value (total_vec m) l + (if l = h then 1 else 0)"
  "ok_vec (update_begun m h) = ok_vec m"
  "ng_vec (update_begun m h) = ng_vec m"
  by (simp_all add: update_begun_def counter_value_Inc)

text \<open>
  Claim C10, as far as the program goes. A call of \<open>update\<close> is its first statement, the
  increment of the total, followed by the branch on the flag; as a whole it adds one to
  the total counter of its label and to exactly one of the success and failure counters
  of that label, and nothing to the counters of any other label. So for every label the
  total is the sum of the success and failure counters whenever no call is in progress:
  after every sequence of calls on the fresh sink of \<^verbatim>\<open>newMetrics\<close>, hence after every
  number of rounds of the driver loop. While a call for a label is in progress, between
  its two increments, the total of that label is the sum plus one, and the other labels
  are balanced.
\<close>

theorem total_is_ok_plus_ng_between_updates:
  "update m h b d = update_finish (update_begun m h) h b d
   \<and> counter_value (total_vec (update m h b d)) l
       = counter_value (total_vec m) l + (if l = h then 1 else 0)
   \<and> counter_value (ok_vec (update m h b d)) l
       = counter_value (ok_vec m) l + (if l = h \<and> b then 1 else 0)
   \<and> counter_value (ng_vec (update m h b d)) l
       = counter_value (ng_vec m) l + (if l = h \<and> \<not> b then 1 else 0)
   \<and> counter_value (total_vec (updates calls newMetrics)) l
       = counter_value (ok_vec (updates calls newMetrics)) l
         + counter_value (ng_vec (updates calls newMetrics)) l
   \<and> counter_value (total_vec (pingMetrics (pingLoop grow p rounds))) l
       = counter_value (ok_vec (pingMetrics (pingLoop grow p rounds))) l
         + counter_value (ng_vec (pingMetrics (pingLoop grow p rounds))) l
   \<and> counter_value (total_vec (update_begun (updates calls newMetrics) h)) l
       = counter_value (ok_vec (update_begun (updates calls newMetrics) h)) l
         + counter_value (ng_vec (update_begun (updates calls newMetrics) h)) l
         + (if l = h then 1 else 0)"
proof -
  have 1: "balanced (updates calls newMetrics) l"
    by (rule balanced_updates) (rule balanced_newMetrics)
  have 2: "balanced (pingMetrics (pingLoop grow p rounds)) l"
    unfolding pingLoop_def
    by (rule balanced_rounds) (simp add: pingLoop_start_def balanced_newMetrics)
  from 1 have 3: "counter_value (total_vec (update_begun (updates calls newMetrics) h)) l
       = counter_value (ok_vec (update_begun (updates calls newMetrics) h)) l
         + counter_value (ng_vec (update_begun (updates calls newMetrics) h)) l
         + (if l = h then 1 else 0)"
    by (simp add: counters_update_begun balanced_def)
  from 1 2 3 show ?thesis
    by (simp add: balanced_def update_split [symmetric] total_update ok_update ng_update)
qed

text \<open>As the specification states it, the equality at every point of the lifetime of the
  process, the property fails: after the first statement of the first call of \<open>update\<close>,
  where a scrape served beside the loop can read the sink, the total of the label is one
  and its success and failure counters are both zero.\<close>

theorem update_in_progress_unbalanced:
  "update newMetrics ''10.0.0.1'' True 2000000
     = update_finish (update_begun newMetrics ''10.0.0.1'') ''10.0.0.1'' True 2000000
   \<and> counter_value (total_vec (update_begun newMetrics ''10.0.0.1'')) ''10.0.0.1'' = 1
   \<and> counter_value (ok_vec (update_begun newMetrics ''10.0.0.1'')) ''10.0.0.1'' = 0
   \<and> counter_value (ng_vec (update_begun newMetrics ''10.0.0.1'')) ''10.0.0.1'' = 0
   \<and> counter_value (total_vec (update_begun newMetrics ''10.0.0.1'')) ''10.0.0.1''
     \<noteq> counter_value (ok_vec (update_begun newMetrics ''10.0.0.1'')) ''10.0.0.1''
       + counter_value (ng_vec (update_begun newMetrics ''10.0.0.1'')) ''10.0.0.1''"
  by (simp add: update_def update_begun_def update_finish_def newMetrics_def Inc_def
      counter_value_def)

section \<open>Properties of a batch: the correlator map\<close>

subsection \<open>The reply callback\<close>

lemma keys_OnRecv: "map fst (OnRecv rs a d) = map fst rs"
  by (auto simp: OnRecv_def AList.update_keys map_of_eq_None_iff split: option.splits
      dest: map_of_SomeD intro: rev_image_eqI)

lemma keys_Run_callbacks: "map fst (Run_callbacks rps rs) = map fst rs"
  by (induction rps arbitrary: rs) (auto simp: Run_callbacks_def keys_OnRecv)

lemma OnRecv_stray: "a \<notin> fst ` set rs \<Longrightarrow> OnRecv rs a d = rs"
  by (simp add: OnRecv_def map_of_eq_None_iff [symmetric])

lemma Run_callbacks_append:
  "Run_callbacks (xs @ ys) rs = Run_callbacks ys (Run_callbacks xs rs)"
  by (simp add: Run_callbacks_def)

lemma Run_callbacks_Cons:
  "Run_callbacks ((a, d) # ys) rs = Run_callbacks ys (OnRecv rs a d)"
  by (simp add: Run_callbacks_def)

lemma Run_callbacks_stray:
  assumes "a \<notin> fst ` set rs"
  shows "Run_callbacks (xs @ (a, d) # ys) rs = Run_callbacks (xs @ ys) rs"
proof -
  have "a \<notin> fst ` set (Run_callbacks xs rs)"
    using assms keys_Run_callbacks [of xs rs] by (metis set_map)
  then show ?thesis
    by (simp add: Run_callbacks_append Run_callbacks_Cons OnRecv_stray)
qed

lemma map_of_OnRecv:
  "map_of (OnRecv rs a d) k =
     (if k = a then map_option (\<lambda>r. r\<lparr>ok := True, rtt := d\<rparr>) (map_of rs k) else map_of rs k)"
  by (simp add: OnRecv_def AList.update_conv' split: option.splits)

lemma map_of_Run_callbacks_unmarked:
  "k \<notin> fst ` set rps \<Longrightarrow> map_of (Run_callbacks rps rs) k = map_of rs k"
  by (induction rps arbitrary: rs) (auto simp: Run_callbacks_def map_of_OnRecv)

lemma host_Run_callbacks:
  "map_option host (map_of (Run_callbacks rps rs) k) = map_option host (map_of rs k)"
  by (induction rps arbitrary: rs)
     (auto simp: Run_callbacks_def map_of_OnRecv option.map_comp comp_def)

lemma ok_Run_callbacks:
  "map_option ok (map_of (Run_callbacks rps rs) k) =
     map_option (\<lambda>r. ok r \<or> k \<in> fst ` set rps) (map_of rs k)"
proof (induction rps arbitrary: rs)
  case Nil
  show ?case by (simp add: Run_callbacks_def)
next
  case (Cons x rps)
  obtain a d where x: "x = (a, d)" by (cases x)
  show ?case
    unfolding x Run_callbacks_Cons Cons.IH
    by (cases "map_of rs k") (auto simp: map_of_OnRecv)
qed

subsection \<open>The loop over the hosts\<close>

lemma distinct_ping_hosts:
  "distinct (map fst rs) \<Longrightarrow> distinct (map fst (fst (ping_hosts resolve n hs (rs, p))))"
  by (induction hs arbitrary: n rs p) (simp_all add: Let_def AList.distinct_update)

lemma map_of_ping_hosts:
  "map_of (fst (ping_hosts resolve n hs (rs, p))) k =
     (if k \<in> snd ` set (filed resolve n hs)
      then Some \<lparr>host = fst (last (filter (\<lambda>e. snd e = k) (filed resolve n hs))),
                 ok = False, rtt = 0\<rparr>
      else map_of rs k)"
proof (induction hs arbitrary: n rs p)
  case Nil
  show ?case by simp
next
  case (Cons h hs)
  show ?case
  proof (cases "k \<in> snd ` set (filed resolve (Suc n) hs)")
    case True
    then have "filter (\<lambda>e. snd e = k) (filed resolve (Suc n) hs) \<noteq> []"
      by (auto simp: filter_empty_conv)
    with True show ?thesis
      by (simp add: Let_def Cons.IH)
  next
    case False
    then have "filter (\<lambda>e. snd e = k) (filed resolve (Suc n) hs) = []"
      by (auto simp: filter_empty_conv)
    with False show ?thesis
      by (cases "key resolve n h = k")
         (simp_all add: Let_def Cons.IH AList.update_conv' key_def)
  qed
qed

lemma submitted_ping_hosts:
  "snd (ping_hosts resolve n hs (rs, p)) =
     p @ concat (map (\<lambda>(i, h). case resolve i h of Inl e \<Rightarrow> [] | Inr a \<Rightarrow> [a])
                   (zip [n..<n + length hs] hs))"
proof (induction hs arbitrary: n rs p)
  case Nil
  show ?case by simp
next
  case (Cons h hs)
  have "[n..<n + length (h # hs)] = n # [Suc n..<Suc n + length hs]"
    by (simp add: upt_rec)
  then show ?case
    by (simp add: Let_def Cons.IH split: sum.splits)
qed

lemma map_fst_filed: "map fst (filed resolve n hosts) = hosts"
  by (induction hosts arbitrary: n) simp_all

subsection \<open>What the deferred function reports\<close>

lemma distinct_ping_results: "distinct (map fst (ping_results resolve replies hosts))"
  by (simp add: ping_results_def ping_registered_def keys_Run_callbacks distinct_ping_hosts)

lemma map_of_ping_registered:
  "map_of (ping_registered resolve hosts) k =
     (if k \<in> snd ` set (filed resolve 0 hosts)
      then Some \<lparr>host = fst (last (filter (\<lambda>e. snd e = k) (filed resolve 0 hosts))),
                 ok = False, rtt = 0\<rparr>
      else None)"
  by (simp add: ping_registered_def map_of_ping_hosts)

lemma last_filter_key:
  assumes "k \<in> snd ` set es"
  shows "(fst (last (filter (\<lambda>e. snd e = k) es)), k) \<in> set es"
proof -
  from assms have "filter (\<lambda>e. snd e = k) es \<noteq> []"
    by (auto simp: filter_empty_conv)
  then have "last (filter (\<lambda>e. snd e = k) es) \<in> set (filter (\<lambda>e. snd e = k) es)"
    by (rule last_in_set)
  then have "last (filter (\<lambda>e. snd e = k) es) \<in> set es"
    and "snd (last (filter (\<lambda>e. snd e = k) es)) = k"
    by simp_all
  then show ?thesis
    by (metis prod.collapse)
qed

lemma host_ping_results:
  "map_option host (map_of (ping_results resolve replies hosts) k) =
     (if k \<in> snd ` set (filed resolve 0 hosts)
      then Some (fst (last (filter (\<lambda>e. snd e = k) (filed resolve 0 hosts)))) else None)"
  by (simp add: ping_results_def host_Run_callbacks map_of_ping_registered)

lemma ok_ping_results:
  "map_option ok (map_of (ping_results resolve replies hosts) k) =
     (if k \<in> snd ` set (filed resolve 0 hosts) then Some (k \<in> fst ` set replies) else None)"
  by (simp add: ping_results_def ok_Run_callbacks map_of_ping_registered)

lemma ok_of_result:
  assumes "(k, r) \<in> set (ping_results resolve replies hosts)"
  shows "ok r \<longleftrightarrow> k \<in> fst ` set replies"
proof -
  from assms have "map_of (ping_results resolve replies hosts) k = Some r"
    by (simp add: distinct_ping_results)
  with ok_ping_results [of resolve replies hosts k] show ?thesis
    by (auto split: if_splits)
qed

text \<open>The records with the label \<open>l\<close> are those of the keys of the entries named \<open>l\<close>,
  provided no key is shared by entries of different names.\<close>

lemma keys_with_label:
  assumes apart: "\<forall>e \<in> set (filed resolve 0 hosts). \<forall>e' \<in> set (filed resolve 0 hosts).
            snd e = snd e' \<longrightarrow> fst e = fst e'"
  shows "fst ` {x \<in> set (ping_results resolve replies hosts). host (snd x) = l \<and> R (fst x)}
           = {k. (l, k) \<in> set (filed resolve 0 hosts) \<and> R k}"
proof (intro set_eqI iffI)
  fix k
  assume "k \<in> fst ` {x \<in> set (ping_results resolve replies hosts). host (snd x) = l \<and> R (fst x)}"
  then obtain r where in_rs: "(k, r) \<in> set (ping_results resolve replies hosts)"
    and l: "host r = l" and R: "R k"
    by force
  from in_rs have "map_of (ping_results resolve replies hosts) k = Some r"
    by (simp add: distinct_ping_results)
  with host_ping_results [of resolve replies hosts k]
  have k: "k \<in> snd ` set (filed resolve 0 hosts)"
    and h: "host r = fst (last (filter (\<lambda>e. snd e = k) (filed resolve 0 hosts)))"
    by (auto split: if_splits)
  from last_filter_key [OF k] h l have "(l, k) \<in> set (filed resolve 0 hosts)"
    by simp
  with R show "k \<in> {k. (l, k) \<in> set (filed resolve 0 hosts) \<and> R k}"
    by simp
next
  fix k
  assume "k \<in> {k. (l, k) \<in> set (filed resolve 0 hosts) \<and> R k}"
  then have lk: "(l, k) \<in> set (filed resolve 0 hosts)" and R: "R k"
    by simp_all
  then have k: "k \<in> snd ` set (filed resolve 0 hosts)"
    by force
  with host_ping_results [of resolve replies hosts k]
  obtain r where m: "map_of (ping_results resolve replies hosts) k = Some r"
    and h: "host r = fst (last (filter (\<lambda>e. snd e = k) (filed resolve 0 hosts)))"
    by (cases "map_of (ping_results resolve replies hosts) k") auto
  from last_filter_key [OF k] lk apart have "fst (last (filter (\<lambda>e. snd e = k)
       (filed resolve 0 hosts))) = l"
    by fastforce
  with h have "host r = l" by simp
  moreover from m have "(k, r) \<in> set (ping_results resolve replies hosts)"
    by (rule map_of_SomeD)
  ultimately show "k \<in> fst ` {x \<in> set (ping_results resolve replies hosts).
                                 host (snd x) = l \<and> R (fst x)}"
    using R by force
qed

lemma length_filter_keys_of:
  "length (filter R (keys_of l es)) = card {k. (l, k) \<in> set es \<and> R k}"
proof -
  have "distinct (filter R (keys_of l es))"
    by (simp add: keys_of_def)
  then have "length (filter R (keys_of l es)) = card (set (filter R (keys_of l es)))"
    by (rule distinct_card [symmetric])
  also have "set (filter R (keys_of l es)) = {k. (l, k) \<in> set es \<and> R k}"
    by (force simp: keys_of_def)
  finally show ?thesis .
qed

lemma count_results_with_label:
  assumes "\<forall>e \<in> set (filed resolve 0 hosts). \<forall>e' \<in> set (filed resolve 0 hosts).
            snd e = snd e' \<longrightarrow> fst e = fst e'"
  shows "length (filter (\<lambda>x. host (snd x) = l \<and> R (fst x)) (ping_results resolve replies hosts))
           = length (filter R (keys_of l (filed resolve 0 hosts)))"
proof -
  let ?rs = "ping_results resolve replies hosts"
  let ?S = "{x \<in> set ?rs. host (snd x) = l \<and> R (fst x)}"
  have d: "distinct ?rs"
    using distinct_ping_results [of resolve replies hosts] by (rule distinct_map [THEN iffD1, THEN conjunct1])
  have inj: "inj_on fst (set ?rs)"
    using distinct_ping_results [of resolve replies hosts] by (simp add: distinct_map)
  have "length (filter (\<lambda>x. host (snd x) = l \<and> R (fst x)) ?rs) = card ?S"
    using d by (simp add: distinct_length_filter Int_def conj_commute)
  also have "\<dots> = card (fst ` ?S)"
    by (rule card_image [symmetric]) (rule inj_on_subset [OF inj], auto)
  also have "fst ` ?S = {k. (l, k) \<in> set (filed resolve 0 hosts) \<and> R k}"
    using assms by (rule keys_with_label)
  also have "card \<dots> = length (filter R (keys_of l (filed resolve 0 hosts)))"
    by (simp add: length_filter_keys_of)
  finally show ?thesis .
qed

lemma filter_map_snd:
  "length (filter P (map snd rs)) = length (filter (\<lambda>x. P (snd x)) rs)"
  unfolding filter_map length_map comp_def by (rule refl)

lemma filter_ok_results:
  "filter (\<lambda>x. host (snd x) = l \<and> (ok (snd x) \<longleftrightarrow> b)) (ping_results resolve replies hosts)
     = filter (\<lambda>x. host (snd x) = l \<and> (fst x \<in> fst ` set replies \<longleftrightarrow> b))
         (ping_results resolve replies hosts)"
proof (rule filter_cong [OF refl])
  fix x
  assume "x \<in> set (ping_results resolve replies hosts)"
  then have "(fst x, snd x) \<in> set (ping_results resolve replies hosts)"
    by simp
  then have "ok (snd x) \<longleftrightarrow> fst x \<in> fst ` set replies"
    by (rule ok_of_result)
  then show "(host (snd x) = l \<and> (ok (snd x) \<longleftrightarrow> b))
               = (host (snd x) = l \<and> (fst x \<in> fst ` set replies \<longleftrightarrow> b))"
    by simp
qed

lemma count_labelled:
  assumes "names_apart (filed resolve 0 hosts)"
  shows "length (filter (\<lambda>r. host r = l) (map snd (ping_results resolve replies hosts)))
           = length (keys_of l (filed resolve 0 hosts))"
    and "length (filter (\<lambda>r. host r = l \<and> ok r) (map snd (ping_results resolve replies hosts)))
           = length (filter (\<lambda>k. k \<in> fst ` set replies) (keys_of l (filed resolve 0 hosts)))"
    and "length (filter (\<lambda>r. host r = l \<and> \<not> ok r)
                   (map snd (ping_results resolve replies hosts)))
           = length (filter (\<lambda>k. k \<notin> fst ` set replies) (keys_of l (filed resolve 0 hosts)))"
proof -
  let ?rs = "ping_results resolve replies hosts"
  let ?es = "filed resolve 0 hosts"
  from assms have apart: "\<forall>e \<in> set ?es. \<forall>e' \<in> set ?es. snd e = snd e' \<longrightarrow> fst e = fst e'"
    unfolding names_apart_def .
  have "length (filter (\<lambda>x. host (snd x) = l \<and> True) ?rs)
          = length (filter (\<lambda>k. True) (keys_of l ?es))"
    using apart by (rule count_results_with_label)
  then show "length (filter (\<lambda>r. host r = l) (map snd ?rs)) = length (keys_of l ?es)"
    unfolding filter_map_snd by simp
  have "length (filter (\<lambda>x. host (snd x) = l \<and> fst x \<in> fst ` set replies) ?rs)
          = length (filter (\<lambda>k. k \<in> fst ` set replies) (keys_of l ?es))"
    using apart by (rule count_results_with_label)
  then show "length (filter (\<lambda>r. host r = l \<and> ok r) (map snd ?rs))
               = length (filter (\<lambda>k. k \<in> fst ` set replies) (keys_of l ?es))"
    unfolding filter_map_snd using filter_ok_results [of l True resolve replies hosts]
    by simp
  have "length (filter (\<lambda>x. host (snd x) = l \<and> fst x \<notin> fst ` set replies) ?rs)
          = length (filter (\<lambda>k. k \<notin> fst ` set replies) (keys_of l ?es))"
    using apart by (rule count_results_with_label)
  then show "length (filter (\<lambda>r. host r = l \<and> \<not> ok r) (map snd ?rs))
               = length (filter (\<lambda>k. k \<notin> fst ` set replies) (keys_of l ?es))"
    unfolding filter_map_snd using filter_ok_results [of l False resolve replies hosts]
    by simp
qed

subsection \<open>The order of the deferred updates\<close>

lemma length_filter_mset:
  "mset rs = mset rs' \<Longrightarrow> length (filter P rs) = length (filter P rs')"
proof -
  assume "mset rs = mset rs'"
  then have "mset (filter P rs) = mset (filter P rs')"
    by (simp only: mset_filter)
  then show ?thesis
    by (rule mset_eq_length)
qed

lemma counters_any_order:
  assumes "mset rs = mset rs'"
  shows "counter_value (total_vec (ping_deferred m rs)) l
           = counter_value (total_vec (ping_deferred m rs')) l
         \<and> counter_value (ok_vec (ping_deferred m rs)) l
           = counter_value (ok_vec (ping_deferred m rs')) l
         \<and> counter_value (ng_vec (ping_deferred m rs)) l
           = counter_value (ng_vec (ping_deferred m rs')) l"
  unfolding total_ping_deferred ok_ping_deferred ng_ping_deferred
  using assms by (simp add: length_filter_mset [of rs rs'])

lemma update_commute:
  "h \<noteq> h' \<Longrightarrow> update (update m h b d) h' b' d' = update (update m h' b' d') h b d"
  by (cases b; cases b') (auto simp: update_def Let_def Inc_def Set_gauge_def fun_upd_twist)

lemma ping_deferred_any_order:
  assumes "mset rs = mset rs'" and "distinct (map host rs)"
  shows "ping_deferred m rs = ping_deferred m rs'"
proof -
  let ?f = "\<lambda>r m. update m (host r) (ok r) (rtt r)"
  from assms(2) have inj: "inj_on host (set rs)"
    by (simp add: distinct_map)
  have "fold ?f rs = fold ?f rs'"
  proof (rule fold_multiset_equiv)
    fix x y
    assume x: "x \<in> set rs" and y: "y \<in> set rs"
    show "?f x \<circ> ?f y = ?f y \<circ> ?f x"
    proof (cases "host x = host y")
      case True
      from inj True x y have "x = y"
        by (rule inj_onD)
      then show ?thesis by simp
    next
      case False
      then show ?thesis
        by (auto simp: fun_eq_iff update_commute)
    qed
  next
    show "mset rs = mset rs'"
      by (rule assms(1))
  qed
  then show ?thesis
    by (simp add: ping_deferred_def)
qed

section \<open>One batch: what is counted\<close>

text \<open>
  Claim C1, as far as the program goes. Take a batch over a list in which no key is
  shared by entries of different names (the key of an entry is the string of the address
  its lookup gave, \<^verbatim>\<open><nil>\<close> when the lookup failed). After the batch the total-attempts
  counter of every label has gone up by the number of different keys of the entries with
  that name: by one for each key, not by one for each entry, so a host that occurs
  several times and resolves to the same address each time is reported once. The success
  counter of the label has gone up by the number of those keys that received a reply, the
  failure counter by the number of those that did not, be it for a missing reply or for a
  failed resolution.
\<close>

theorem one_update_per_key:
  assumes "names_apart (filed resolve 0 hosts)"
  shows "counter_value (total_vec (fst (ping resolve replies e m hosts))) l
           = counter_value (total_vec m) l + length (keys_of l (filed resolve 0 hosts))
         \<and> counter_value (ok_vec (fst (ping resolve replies e m hosts))) l
           = counter_value (ok_vec m) l
             + length (filter (\<lambda>k. k \<in> fst ` set replies) (keys_of l (filed resolve 0 hosts)))
         \<and> counter_value (ng_vec (fst (ping resolve replies e m hosts))) l
           = counter_value (ng_vec m) l
             + length (filter (\<lambda>k. k \<notin> fst ` set replies) (keys_of l (filed resolve 0 hosts)))"
  using count_labelled [OF assms, of l replies]
  by (simp add: ping_def Let_def total_ping_deferred ok_ping_deferred ng_ping_deferred)

text \<open>The host \<^verbatim>\<open>10.0.0.1\<close> occurs twice among three entries and replies: it is counted
  once, as a success. The host \<^verbatim>\<open>nowhere.invalid\<close> does not resolve: it is counted once,
  as a failure.\<close>

theorem one_update_per_key_witness:
  "names_apart (filed resolve_but_one 0 [''10.0.0.1'', ''nowhere.invalid'', ''10.0.0.1''])
   \<and> counter_value (total_vec (fst (ping resolve_but_one [(''10.0.0.1'', 2000000)] None newMetrics
        [''10.0.0.1'', ''nowhere.invalid'', ''10.0.0.1'']))) ''10.0.0.1'' = 1
   \<and> counter_value (ok_vec (fst (ping resolve_but_one [(''10.0.0.1'', 2000000)] None newMetrics
        [''10.0.0.1'', ''nowhere.invalid'', ''10.0.0.1'']))) ''10.0.0.1'' = 1
   \<and> counter_value (ng_vec (fst (ping resolve_but_one [(''10.0.0.1'', 2000000)] None newMetrics
        [''10.0.0.1'', ''nowhere.invalid'', ''10.0.0.1'']))) ''10.0.0.1'' = 0
   \<and> counter_value (total_vec (fst (ping resolve_but_one [(''10.0.0.1'', 2000000)] None newMetrics
        [''10.0.0.1'', ''nowhere.invalid'', ''10.0.0.1'']))) ''nowhere.invalid'' = 1
   \<and> counter_value (ng_vec (fst (ping resolve_but_one [(''10.0.0.1'', 2000000)] None newMetrics
        [''10.0.0.1'', ''nowhere.invalid'', ''10.0.0.1'']))) ''nowhere.invalid'' = 1"
proof -
  have f: "filed resolve_but_one 0 [''10.0.0.1'', ''nowhere.invalid'', ''10.0.0.1'']
             = [(''10.0.0.1'', ''10.0.0.1''), (''nowhere.invalid'', ''<nil>''),
                (''10.0.0.1'', ''10.0.0.1'')]"
    by (simp add: key_def resolve_but_one_def String_def)
  have h: "names_apart (filed resolve_but_one 0 [''10.0.0.1'', ''nowhere.invalid'', ''10.0.0.1''])"
    unfolding f by (simp add: names_apart_def)
  have k1: "keys_of ''10.0.0.1'' [(''10.0.0.1'', ''10.0.0.1''), (''nowhere.invalid'', ''<nil>''),
                (''10.0.0.1'', ''10.0.0.1'')] = [''10.0.0.1'']"
    and k2: "keys_of ''nowhere.invalid'' [(''10.0.0.1'', ''10.0.0.1''),
                (''nowhere.invalid'', ''<nil>''), (''10.0.0.1'', ''10.0.0.1'')] = [''<nil>'']"
    by (simp_all add: keys_of_def)
  have z: "counter_value (total_vec newMetrics) l = 0" "counter_value (ok_vec newMetrics) l = 0"
    "counter_value (ng_vec newMetrics) l = 0" for l
    by (simp_all add: newMetrics_def counter_value_def)
  show ?thesis
    using h
      one_update_per_key [OF h, of "[(''10.0.0.1'', 2000000)]" None newMetrics "''10.0.0.1''"]
      one_update_per_key [OF h, of "[(''10.0.0.1'', 2000000)]" None newMetrics
        "''nowhere.invalid''"]
    unfolding f k1 k2 z by simp
qed

text \<open>As the specification states it, one increment of the total for each of the \<open>N\<close>
  entries, the property fails: for a list that holds the same address twice the total
  goes up by one, not by two.\<close>

theorem duplicate_host_counted_once:
  "counter_value (total_vec (fst (ping resolve_literal [] None newMetrics
       [''10.0.0.1'', ''10.0.0.1'']))) ''10.0.0.1'' = 1
   \<and> counter_value (total_vec (fst (ping resolve_literal [] None newMetrics
       [''10.0.0.1'', ''10.0.0.1'']))) ''10.0.0.1''
     \<noteq> counter_value (total_vec newMetrics) ''10.0.0.1''
       + count_list [''10.0.0.1'', ''10.0.0.1''] ''10.0.0.1''"
  by (simp add: ping_def ping_results_def ping_registered_def Run_callbacks_def
      ping_deferred_def resolve_literal_def String_def update_def newMetrics_def Inc_def
      counter_value_def Let_def)

text \<open>
  Claim C3, as far as the program goes. The update of the metrics is deferred, so it runs
  whatever \<^verbatim>\<open>p.Run()\<close> returns: when the run returns an error, \<open>ping\<close> returns that error
  and leaves the sink exactly as the same batch with the same replies and no error leaves
  it, every pending result reported.
\<close>

theorem run_error_does_not_stop_deferred:
  "ping resolve replies (Some err) m hosts = (fst (ping resolve replies None m hosts), Some err)"
  by (simp add: ping_def Let_def)

text \<open>As the specification states it, no metric updated when the run fails, the property
  fails: a batch of one host whose run returns an error counts one attempt and one failure
  for the host.\<close>

theorem run_error_still_updates:
  "fst (ping resolve_literal [] (Some (Error ''operation not permitted'')) newMetrics [''10.0.0.1''])
     \<noteq> newMetrics
   \<and> counter_value (total_vec (fst (ping resolve_literal [] (Some (Error ''operation not permitted''))
         newMetrics [''10.0.0.1'']))) ''10.0.0.1'' = 1
   \<and> counter_value (ng_vec (fst (ping resolve_literal [] (Some (Error ''operation not permitted''))
         newMetrics [''10.0.0.1'']))) ''10.0.0.1'' = 1"
proof -
  have "counter_value (total_vec (fst (ping resolve_literal [] (Some (Error ''operation not permitted''))
         newMetrics [''10.0.0.1'']))) ''10.0.0.1'' = 1"
   and n: "counter_value (ng_vec (fst (ping resolve_literal [] (Some (Error ''operation not permitted''))
         newMetrics [''10.0.0.1'']))) ''10.0.0.1'' = 1"
    by (simp_all add: ping_def ping_results_def ping_registered_def Run_callbacks_def
      ping_deferred_def resolve_literal_def String_def update_def newMetrics_def Inc_def
      counter_value_def Let_def)
  moreover have "counter_value (ng_vec newMetrics) ''10.0.0.1'' = 0"
    by (simp add: newMetrics_def counter_value_def)
  ultimately show ?thesis
    by auto
qed

text \<open>
  Claim C6, at an input where the program departs from it. Two hosts that both fail to
  resolve are filed under the same key, the string form \<^verbatim>\<open><nil>\<close> of the nil address, so
  the record of the second replaces the record of the first: after the batch only
  \<^verbatim>\<open>y.invalid\<close> has a failed attempt, and \<^verbatim>\<open>x.invalid\<close> has none at all. Neither is
  submitted to the transport.
\<close>

theorem unresolvable_hosts_collide:
  "ping_registered resolve_none [''x.invalid'', ''y.invalid'']
     = [(''<nil>'', \<lparr>host = ''y.invalid'', ok = False, rtt = 0\<rparr>)]
   \<and> ping_submitted resolve_none [''x.invalid'', ''y.invalid''] = []
   \<and> counter_value (total_vec (fst (ping resolve_none [] None newMetrics
         [''x.invalid'', ''y.invalid'']))) ''x.invalid'' = 0
   \<and> counter_value (ng_vec (fst (ping resolve_none [] None newMetrics
         [''x.invalid'', ''y.invalid'']))) ''x.invalid'' = 0
   \<and> counter_value (ng_vec (fst (ping resolve_none [] None newMetrics
         [''x.invalid'', ''y.invalid'']))) ''y.invalid'' = 1"
  by (simp add: ping_def ping_results_def ping_registered_def ping_submitted_def
      Run_callbacks_def ping_deferred_def resolve_none_def String_def update_def newMetrics_def
      Inc_def counter_value_def Let_def)

lemma registered_initial:
  "(k, r) \<in> set (ping_registered resolve hosts) \<Longrightarrow> \<not> ok r \<and> rtt r = 0"
proof -
  assume "(k, r) \<in> set (ping_registered resolve hosts)"
  then have "map_of (ping_registered resolve hosts) k = Some r"
    by (simp add: ping_registered_def distinct_ping_hosts)
  then show ?thesis
    by (auto simp: map_of_ping_registered split: if_splits)
qed

text \<open>
  Claim C7. A reply whose address is not a key of the correlator map of the batch changes
  nothing: \<open>OnRecv\<close> returns the map as it was, at whatever point of the run the reply
  arrives (the callback has no failing branch and does not touch the sink), and the batch
  ends with the same sink and the same return value as the batch without that reply.
  Every record whose key never received a reply is, at the end of the run, as it was
  registered: not successful, with round-trip time zero.
\<close>

theorem stray_reply_ignored:
  assumes "addr \<notin> fst ` set (ping_registered resolve hosts)"
  shows "OnRecv (Run_callbacks rs1 (ping_registered resolve hosts)) addr d
           = Run_callbacks rs1 (ping_registered resolve hosts)
         \<and> ping resolve (rs1 @ (addr, d) # rs2) e m hosts = ping resolve (rs1 @ rs2) e m hosts
         \<and> (\<forall>k r. (k, r) \<in> set (ping_results resolve replies hosts) \<and> k \<notin> fst ` set replies
              \<longrightarrow> \<not> ok r \<and> rtt r = 0)"
proof -
  have "addr \<notin> fst ` set (Run_callbacks rs1 (ping_registered resolve hosts))"
    using assms keys_Run_callbacks [of rs1 "ping_registered resolve hosts"] by (metis set_map)
  then have 1: "OnRecv (Run_callbacks rs1 (ping_registered resolve hosts)) addr d
           = Run_callbacks rs1 (ping_registered resolve hosts)"
    by (rule OnRecv_stray)
  have 2: "ping resolve (rs1 @ (addr, d) # rs2) e m hosts = ping resolve (rs1 @ rs2) e m hosts"
    using assms by (simp add: ping_def ping_results_def Run_callbacks_stray)
  have 3: "\<not> ok r \<and> rtt r = 0"
    if a: "(k, r) \<in> set (ping_results resolve replies hosts) \<and> k \<notin> fst ` set replies" for k r
  proof -
    from a have "map_of (ping_results resolve replies hosts) k = Some r"
      by (simp add: distinct_ping_results)
    with a have "map_of (ping_registered resolve hosts) k = Some r"
      by (simp add: ping_results_def map_of_Run_callbacks_unmarked)
    then have "(k, r) \<in> set (ping_registered resolve hosts)"
      by (rule map_of_SomeD)
    then show ?thesis
      by (rule registered_initial)
  qed
  from 1 2 show ?thesis
    using 3 by (intro conjI allI impI) (assumption, assumption, blast, blast)
qed

theorem stray_reply_ignored_witness:
  "''9.9.9.9'' \<notin> fst ` set (ping_registered resolve_literal [''10.0.0.1'', ''10.0.0.2''])
   \<and> ping resolve_literal [(''10.0.0.1'', 2000000), (''9.9.9.9'', 3000000)] None newMetrics
         [''10.0.0.1'', ''10.0.0.2'']
       = ping resolve_literal [(''10.0.0.1'', 2000000)] None newMetrics
           [''10.0.0.1'', ''10.0.0.2'']
   \<and> (''10.0.0.2'', \<lparr>host = ''10.0.0.2'', ok = False, rtt = 0\<rparr>)
         \<in> set (ping_results resolve_literal [(''10.0.0.1'', 2000000)]
                 [''10.0.0.1'', ''10.0.0.2''])
   \<and> ''10.0.0.2'' \<notin> fst ` set [(''10.0.0.1'', 2000000::duration)]
   \<and> \<not> ok \<lparr>host = ''10.0.0.2'', ok = False, rtt = 0\<rparr>"
proof -
  have h: "''9.9.9.9'' \<notin> fst ` set (ping_registered resolve_literal [''10.0.0.1'', ''10.0.0.2''])"
    by (simp add: ping_registered_def resolve_literal_def String_def)
  have r: "(''10.0.0.2'', \<lparr>host = ''10.0.0.2'', ok = False, rtt = 0\<rparr>)
             \<in> set (ping_results resolve_literal [(''10.0.0.1'', 2000000)]
                     [''10.0.0.1'', ''10.0.0.2''])"
    by (simp add: ping_results_def ping_registered_def Run_callbacks_def OnRecv_def
        resolve_literal_def String_def)
  show ?thesis
    using h r
      stray_reply_ignored [OF h, where ?rs1.0 = "[(''10.0.0.1'', 2000000)]" and d = 3000000
        and ?rs2.0 = "[]" and e = None and m = newMetrics
        and replies = "[(''10.0.0.1'', 2000000)]"]
    by simp
qed

section \<open>Properties of the target list\<close>

lemma read_item_frame:
  "path (snd (read_item grow item st)) = path (snd st)
   \<and> mtime (snd (read_item grow item st)) = mtime (snd st)"
  by (simp add: read_item_def split: prod.splits)

lemma fold_read_item_frame:
  "path (snd (fold (read_item grow) xs st)) = path (snd st)
   \<and> mtime (snd (fold (read_item grow) xs st)) = mtime (snd st)"
  by (induction xs arbitrary: st) (simp_all add: read_item_frame)

lemma path_read: "path (snd (read grow fs st)) = path (snd st)"
  by (simp add: read_def Let_def fold_read_item_frame split: prod.splits sum.splits)

lemma mtime_read:
  "Stat fs (path (snd st)) = Inr mt \<Longrightarrow>
   mtime (snd (read grow fs st)) = max mt (mtime (snd st))"
  by (auto simp add: read_def Let_def fold_read_item_frame split: prod.splits sum.splits)

lemma read_stat_error: "Stat fs (path (snd st)) = Inl e \<Longrightarrow> read grow fs st = st"
  by (cases st) (simp add: read_def)

lemma read_not_newer:
  "Stat fs (path (snd st)) = Inr mt \<Longrightarrow> mt \<le> mtime (snd st) \<Longrightarrow> read grow fs st = st"
  by (cases st) (simp add: read_def)

lemma loaded_ab_eq:
  "loaded_ab = ([[''a''], [''a'', ''b'']],
                \<lparr>items = \<lparr>ptr = 1, len = 2, cap = 2\<rparr>, path = ''targets'', mtime = 100\<rparr>)"
  by (simp add: loaded_ab_def fresh_targets_def read_def file_at_def read_item_def
      append_go_def go_grow_def nil_def Let_def)

text \<open>
  Claim C8. If the \<^verbatim>\<open>os.Stat\<close> of the second of two consecutive calls of \<open>read\<close> fails,
  or both calls see the same modification time of the file, the second call changes
  nothing: the heap, the slice header, the path and the recorded time are as the first
  call left them, so the sequence of targets is the same, element for element, whatever
  the file holds by then.
\<close>

theorem read_again_unchanged:
  assumes "Stat fs2 (path (snd st)) = Inl e
           \<or> (Stat fs1 (path (snd st)) = Inr mt \<and> Stat fs2 (path (snd st)) = Inr mt)"
  shows "read grow fs2 (read grow fs1 st) = read grow fs1 st
         \<and> elems (fst (read grow fs2 (read grow fs1 st)))
                 (items (snd (read grow fs2 (read grow fs1 st))))
           = elems (fst (read grow fs1 st)) (items (snd (read grow fs1 st)))"
proof -
  have "read grow fs2 (read grow fs1 st) = read grow fs1 st"
    using assms
  proof
    assume "Stat fs2 (path (snd st)) = Inl e"
    then show ?thesis
      by (simp add: read_stat_error path_read)
  next
    assume a: "Stat fs1 (path (snd st)) = Inr mt \<and> Stat fs2 (path (snd st)) = Inr mt"
    then have "mt \<le> mtime (snd (read grow fs1 st))"
      by (simp add: mtime_read)
    with a show ?thesis
      by (simp add: read_not_newer path_read)
  qed
  then show ?thesis by simp
qed

text \<open>The file is loaded at time 100 and read again, still with time 100 but another
  content: the targets stay.\<close>

theorem read_again_unchanged_witness:
  "Stat (file_at 100 ''c'') (path (snd fresh_targets)) = Inr 100
   \<and> read go_grow (file_at 100 ''c'') loaded_ab = loaded_ab
   \<and> elems (fst (read go_grow (file_at 100 ''c'') loaded_ab))
           (items (snd (read go_grow (file_at 100 ''c'') loaded_ab))) = [''a'', ''b'']"
proof -
  have s: "Stat (file_at 100 ''a\<newline>b\<newline>'') (path (snd fresh_targets)) = Inr 100"
    "Stat (file_at 100 ''c'') (path (snd fresh_targets)) = Inr 100"
    by (simp_all add: file_at_def)
  then have h: "Stat (file_at 100 ''c'') (path (snd fresh_targets)) = Inl (Error [])
           \<or> (Stat (file_at 100 ''a\<newline>b\<newline>'') (path (snd fresh_targets)) = Inr 100
               \<and> Stat (file_at 100 ''c'') (path (snd fresh_targets)) = Inr 100)"
    by simp
  have e: "elems (fst loaded_ab) (items (snd loaded_ab)) = [''a'', ''b'']"
    by (simp add: loaded_ab_eq elems_def)
  show ?thesis
    using s read_again_unchanged [OF h, of go_grow] e
    by (simp add: loaded_ab_def)
qed

text \<open>
  Claim C2, at an input where the program departs from it. The list was loaded at time
  100; the file then has time 200 and cannot be read. \<open>read\<close> keeps the sequence but has
  already recorded the time 200 (the assignment to \<^verbatim>\<open>t.mtime\<close> comes before
  \<^verbatim>\<open>ioutil.ReadFile\<close>), so the next call, with the file readable again and still of time
  200, takes the path of an unchanged file and does not read it: the list stays stale.
\<close>

theorem failed_read_records_mtime:
  "mtime (snd loaded_ab) = 100
   \<and> mtime (snd (read go_grow (unreadable_at 200) loaded_ab)) = 200
   \<and> items (snd (read go_grow (unreadable_at 200) loaded_ab)) = items (snd loaded_ab)
   \<and> fst (read go_grow (unreadable_at 200) loaded_ab) = fst loaded_ab
   \<and> read go_grow (file_at 200 ''c\<newline>'') (read go_grow (unreadable_at 200) loaded_ab)
       = read go_grow (unreadable_at 200) loaded_ab
   \<and> elems (fst (read go_grow (file_at 200 ''c\<newline>'')
                    (read go_grow (unreadable_at 200) loaded_ab)))
           (items (snd (read go_grow (file_at 200 ''c\<newline>'')
                    (read go_grow (unreadable_at 200) loaded_ab)))) = [''a'', ''b'']"
  by (simp add: loaded_ab_eq read_def unreadable_at_def file_at_def elems_def)

subsection \<open>Appending to a slice\<close>

lemma append_go_valid:
  assumes "valid h s"
  shows "valid (fst (append_go grow h s x)) (snd (append_go grow h s x))
         \<and> elems (fst (append_go grow h s x)) (snd (append_go grow h s x)) = elems h s @ [x]
         \<and> length h \<le> length (fst (append_go grow h s x))"
proof (cases "len s < cap s")
  case True
  with assms have p: "ptr s < length h" and l: "length (h ! ptr s) = cap s"
    by (auto simp: valid_def)
  from True p l show ?thesis
    by (simp add: append_go_def valid_def elems_def take_Suc_conv_app_nth)
next
  case False
  with assms have e: "len s = cap s" and l: "len s \<le> length (h ! ptr s) \<or> len s = 0"
    by (auto simp: valid_def)
  from False l show ?thesis
    by (auto simp: append_go_def valid_def elems_def Let_def nth_append)
qed

lemma append_go_other:
  assumes "valid h s" and "p < length h" and "ptr s \<noteq> p \<or> cap s = 0"
  shows "fst (append_go grow h s x) ! p = h ! p
         \<and> ptr (snd (append_go grow h s x)) \<noteq> p"
  using assms by (auto simp: append_go_def Let_def nth_append valid_def)

lemma append_go_keeps_valid:
  assumes "valid h s" and "valid h s'"
  shows "valid (fst (append_go grow h s x)) s'"
  using assms
  by (cases "ptr s' = ptr s")
     (auto simp: append_go_def Let_def nth_append valid_def)

lemma append_all_Cons:
  "append_all grow (x # xs) (h, s) = append_all grow xs (append_go grow h s x)"
  by (simp add: append_all_def)

lemma append_all_Nil: "append_all grow [] st = st"
  by (simp add: append_all_def)

lemma append_all_valid:
  "valid h s \<Longrightarrow>
   valid (fst (append_all grow xs (h, s))) (snd (append_all grow xs (h, s)))
   \<and> elems (fst (append_all grow xs (h, s))) (snd (append_all grow xs (h, s))) = elems h s @ xs
   \<and> length h \<le> length (fst (append_all grow xs (h, s)))"
proof (induction xs arbitrary: h s)
  case Nil
  then show ?case by (simp add: append_all_Nil)
next
  case (Cons x xs)
  obtain h1 s1 where a: "append_go grow h s x = (h1, s1)" by (cases "append_go grow h s x")
  with append_go_valid [OF Cons.prems, of grow x]
  have "valid h1 s1" and "elems h1 s1 = elems h s @ [x]" and "length h \<le> length h1"
    by simp_all
  with Cons.IH [of h1 s1] show ?case
    by (simp add: append_all_Cons a)
qed

lemma append_all_other:
  "valid h s \<Longrightarrow> p < length h \<Longrightarrow> ptr s \<noteq> p \<or> cap s = 0 \<Longrightarrow>
   fst (append_all grow xs (h, s)) ! p = h ! p"
proof (induction xs arbitrary: h s)
  case Nil
  then show ?case by (simp add: append_all_Nil)
next
  case (Cons x xs)
  obtain h1 s1 where a: "append_go grow h s x = (h1, s1)" by (cases "append_go grow h s x")
  with append_go_valid [OF Cons.prems(1), of grow x] append_go_other [OF Cons.prems, of grow x]
  have "valid h1 s1" and "length h \<le> length h1" and "h1 ! p = h ! p" and "ptr s1 \<noteq> p"
    by simp_all
  with Cons.IH [of h1 s1] Cons.prems(2) show ?case
    by (simp add: append_all_Cons a)
qed

lemma append_all_keeps_valid:
  "valid h s \<Longrightarrow> valid h s' \<Longrightarrow> valid (fst (append_all grow xs (h, s))) s'"
proof (induction xs arbitrary: h s)
  case Nil
  then show ?case by (simp add: append_all_Nil)
next
  case (Cons x xs)
  obtain h1 s1 where a: "append_go grow h s x = (h1, s1)" by (cases "append_go grow h s x")
  with append_go_valid [OF Cons.prems(1), of grow x]
    append_go_keeps_valid [OF Cons.prems, of grow x]
  have "valid h1 s1" and "valid h1 s'"
    by simp_all
  with Cons.IH [of h1 s1] show ?case
    by (simp add: append_all_Cons a)
qed

lemma append_all_same:
  "valid h s \<Longrightarrow> 0 < cap s \<Longrightarrow>
   fst (append_all grow xs (h, s)) ! ptr s =
     take (len s) (h ! ptr s) @ take (cap s - len s) xs
       @ drop (len s + min (cap s - len s) (length xs)) (h ! ptr s)"
proof (induction xs arbitrary: h s)
  case Nil
  then show ?case by (simp add: append_all_Nil)
next
  case (Cons x xs)
  from Cons.prems have p: "ptr s < length h" and l: "length (h ! ptr s) = cap s"
    and n: "len s \<le> cap s"
    by (auto simp: valid_def)
  show ?case
  proof (cases "len s < cap s")
    case True
    let ?h1 = "h[ptr s := (h ! ptr s)[len s := x]]"
    let ?s1 = "s\<lparr>len := len s + 1\<rparr>"
    have a: "append_go grow h s x = (?h1, ?s1)"
      using True by (simp add: append_go_def)
    have v: "valid ?h1 ?s1"
      using append_go_valid [OF Cons.prems(1), of grow x] a by simp
    have "fst (append_all grow xs (?h1, ?s1)) ! ptr ?s1 =
            take (len ?s1) (?h1 ! ptr ?s1) @ take (cap ?s1 - len ?s1) xs
              @ drop (len ?s1 + min (cap ?s1 - len ?s1) (length xs)) (?h1 ! ptr ?s1)"
      using Cons.prems(2) by (intro Cons.IH [OF v]) simp
    moreover have "take (cap s - len s) (x # xs) = x # take (cap s - len s - 1) xs"
      using True by (cases "cap s - len s") simp_all
    moreover have "min (cap s - len s) (length (x # xs)) = 1 + min (cap s - len s - 1) (length xs)"
      using True by (simp add: min_def) arith
    ultimately show ?thesis
      using True p l
      by (simp add: append_all_Cons a take_Suc_conv_app_nth)
  next
    case False
    with n have e: "len s = cap s" by simp
    obtain h1 s1 where a: "append_go grow h s x = (h1, s1)" by (cases "append_go grow h s x")
    have "h1 = h @ [take (len s) (h ! ptr s)
                      @ x # replicate (max (len s + 1) (grow (cap s)) - (len s + 1)) []]"
      and "ptr s1 = length h"
      using a False by (auto simp: append_go_def Let_def)
    with p have "h1 ! ptr s = h ! ptr s" and "ptr s1 \<noteq> ptr s" and "ptr s < length h1"
      by (simp_all add: nth_append)
    moreover have "valid h1 s1"
      using append_go_valid [OF Cons.prems(1), of grow x] a by simp
    ultimately have "fst (append_all grow xs (h1, s1)) ! ptr s = h ! ptr s"
      using append_all_other [of h1 s1 "ptr s" grow xs] by simp
    then show ?thesis
      using e l by (simp add: append_all_Cons a)
  qed
qed

lemma fold_read_item:
  "fold (read_item grow) ls (h, t) =
     (fst (append_all grow (filter (\<lambda>item. item \<noteq> []) ls) (h, items t)),
      t\<lparr>items := snd (append_all grow (filter (\<lambda>item. item \<noteq> []) ls) (h, items t))\<rparr>)"
proof (induction ls arbitrary: h t)
  case Nil
  show ?case by (simp add: append_all_Nil)
next
  case (Cons a ls)
  have step: "read_item grow a (h, t) =
                (if a \<noteq> [] then (fst (append_go grow h (items t) a),
                                   t\<lparr>items := snd (append_go grow h (items t) a)\<rparr>)
                 else (h, t))"
    by (simp add: read_item_def split: prod.splits)
  show ?case
    by (simp add: step Cons.IH append_all_Cons)
qed

lemma overwritten_prefix:
  assumes "l \<le> length a"
  shows "take l (take (length a) new @ drop (min (length a) (length new)) a)
           = take l (new @ drop (length new) (take l a))"
proof (cases "l \<le> length new")
  case True
  with assms show ?thesis by simp
next
  case False
  with assms show ?thesis
    by (simp add: min_def drop_take)
qed

subsection \<open>A reload\<close>

lemma read_reload:
  assumes "Stat fs (path t) = Inr mt" and "mtime t < mt" and "ReadFile fs (path t) = Inr b"
  shows "read grow fs (h, t) =
           (fst (append_all grow (entries b) (h, (items t)\<lparr>len := 0\<rparr>)),
            t\<lparr>mtime := mt,
              items := snd (append_all grow (entries b) (h, (items t)\<lparr>len := 0\<rparr>))\<rparr>)"
  using assms by (simp add: read_def Let_def fold_read_item entries_def)

lemma valid_truncate: "valid h s \<Longrightarrow> valid h (s\<lparr>len := 0\<rparr>)"
  by (simp add: valid_def)

lemma read_valid:
  assumes "valid h (items t)"
  shows "valid (fst (read grow fs (h, t))) (items (snd (read grow fs (h, t))))"
proof (cases "\<exists>mt b. Stat fs (path t) = Inr mt \<and> mtime t < mt \<and> ReadFile fs (path t) = Inr b")
  case True
  then obtain mt b where "Stat fs (path t) = Inr mt" and "mtime t < mt"
    and "ReadFile fs (path t) = Inr b"
    by blast
  then show ?thesis
    using append_all_valid [OF valid_truncate [OF assms], of grow "entries b"]
    by (simp add: read_reload)
next
  case False
  then have "fst (read grow fs (h, t)) = h \<and> items (snd (read grow fs (h, t))) = items t"
    by (auto simp: read_def Let_def split: sum.splits)
  with assms show ?thesis by simp
qed

lemma valid_pingLoop:
  "valid (mem (pingLoop grow p rounds)) (items (targets (pingLoop grow p rounds)))"
proof -
  have "valid (mem st) (items (targets st)) \<Longrightarrow>
        valid (mem (fold (pingLoop_round grow) rounds st))
              (items (targets (fold (pingLoop_round grow) rounds st)))" for st
  proof (induction rounds arbitrary: st)
    case Nil
    then show ?case by simp
  next
    case (Cons r rounds)
    have "valid (mem (pingLoop_round grow r st)) (items (targets (pingLoop_round grow r st)))"
      using read_valid [OF Cons.prems, of grow "round_fs r"]
      by (cases "read grow (round_fs r) (mem st, targets st)") (simp add: pingLoop_round_def)
    then show ?case
      using Cons.IH by simp
  qed
  then show ?thesis
    by (simp add: pingLoop_def pingLoop_start_def nil_def valid_def)
qed

lemma read_keeps_valid:
  assumes "valid h (items t)" and "valid h s"
  shows "valid (fst (read grow fs (h, t))) s"
proof (cases "\<exists>mt b. Stat fs (path t) = Inr mt \<and> mtime t < mt \<and> ReadFile fs (path t) = Inr b")
  case True
  then obtain mt b where "Stat fs (path t) = Inr mt" and "mtime t < mt"
    and "ReadFile fs (path t) = Inr b"
    by blast
  then show ?thesis
    using append_all_keeps_valid [OF valid_truncate [OF assms(1)] assms(2), of grow "entries b"]
    by (simp add: read_reload)
next
  case False
  then have "fst (read grow fs (h, t)) = h"
    by (auto simp: read_def Let_def split: sum.splits)
  with assms(2) show ?thesis by simp
qed

lemma loaded_cde_eq:
  "loaded_cde = ([[''a''], [''c'', ''d''], [''c'', ''d'', ''e'', '''']],
                 \<lparr>items = \<lparr>ptr = 2, len = 3, cap = 4\<rparr>, path = ''targets'', mtime = 200\<rparr>)"
  by (simp add: loaded_cde_def loaded_ab_eq read_def file_at_def read_item_def
      append_go_def go_grow_def Let_def)

text \<open>
  Claim C5, as far as the program goes. On a successful reload (the file is newer and is
  read) the target list afterwards holds exactly the non-empty lines of the file, and the
  new time is recorded. The replacement is made in place: the list is truncated with
  \<^verbatim>\<open>t.items[:0]\<close> and appended to, which writes the new entries into the backing array
  the list has when the reload starts. So a slice value \<open>old\<close> obtained from the list at
  any earlier time is not left alone in general. If it shares its backing array with the
  list as the reload finds it (and that array is not of capacity zero), as the value of
  the latest call does, it is overwritten: at its own length \<open>l\<close> it then reads as the
  first \<open>l\<close> elements of the new entries followed by its old elements from the position
  where the new entries end. If the list has moved to another backing array since,
  because an earlier reload outgrew the capacity, the value is unchanged. (A slice value
  once valid stays valid: \<open>read_keeps_valid\<close>.)
\<close>

theorem reload_reuses_backing_array:
  assumes "Stat fs (path t) = Inr mt" and "mtime t < mt" and "ReadFile fs (path t) = Inr b"
    and "valid h (items t)" and "valid h old"
  shows "elems (fst (read grow fs (h, t))) (items (snd (read grow fs (h, t)))) = entries b
         \<and> mtime (snd (read grow fs (h, t))) = mt
         \<and> elems (fst (read grow fs (h, t))) old
             = (if ptr old = ptr (items t) \<and> 0 < cap (items t)
                then take (len old) (entries b @ drop (length (entries b)) (elems h old))
                else elems h old)"
proof -
  let ?s0 = "(items t)\<lparr>len := 0\<rparr>"
  let ?r = "append_all grow (entries b) (h, ?s0)"
  have v0: "valid h ?s0"
    using assms(4) by (rule valid_truncate)
  have r: "read grow fs (h, t) = (fst ?r, t\<lparr>mtime := mt, items := snd ?r\<rparr>)"
    using assms(1-3) by (rule read_reload)
  have "elems (fst ?r) (snd ?r) = elems h ?s0 @ entries b"
    using append_all_valid [OF v0, of grow "entries b"] by simp
  then have 1: "elems (fst (read grow fs (h, t))) (items (snd (read grow fs (h, t)))) = entries b"
    by (simp add: r elems_def)
  have 2: "mtime (snd (read grow fs (h, t))) = mt"
    by (simp add: r)
  have 3: "elems (fst (read grow fs (h, t))) old
             = (if ptr old = ptr (items t) \<and> 0 < cap (items t)
                then take (len old) (entries b @ drop (length (entries b)) (elems h old))
                else elems h old)"
  proof (cases "cap old = 0")
    case True
    with assms(5) have "len old = 0"
      by (simp add: valid_def)
    then show ?thesis
      by (simp add: elems_def)
  next
    case False
    with assms(5) have p: "ptr old < length h" and lo: "length (h ! ptr old) = cap old"
      and n: "len old \<le> length (h ! ptr old)"
      by (auto simp: valid_def)
    show ?thesis
    proof (cases "ptr old = ptr (items t) \<and> 0 < cap (items t)")
      case True
      with assms(4) have l: "length (h ! ptr (items t)) = cap (items t)"
        by (auto simp: valid_def)
      from True have "fst ?r ! ptr ?s0 =
          take (len ?s0) (h ! ptr ?s0) @ take (cap ?s0 - len ?s0) (entries b)
            @ drop (len ?s0 + min (cap ?s0 - len ?s0) (length (entries b))) (h ! ptr ?s0)"
        by (intro append_all_same [OF v0]) simp
      with True have "fst ?r ! ptr old =
          take (length (h ! ptr old)) (entries b)
            @ drop (min (length (h ! ptr old)) (length (entries b))) (h ! ptr old)"
        by (simp add: l)
      then show ?thesis
        using True overwritten_prefix [OF n, of "entries b"]
        by (simp add: r elems_def)
    next
      case other: False
      then have "ptr ?s0 \<noteq> ptr old \<or> cap ?s0 = 0"
        by auto
      with v0 p have "fst ?r ! ptr old = h ! ptr old"
        by (rule append_all_other)
      then have "elems (fst (read grow fs (h, t))) old = elems h old"
        by (simp add: r elems_def)
      with other show ?thesis
        by auto
    qed
  qed
  from 1 2 3 show ?thesis by simp
qed

text \<open>The list \<^verbatim>\<open>[a, b]\<close> was reloaded as \<^verbatim>\<open>[c, d, e]\<close>, for which it moved to a larger
  array, and is now reloaded from a file with the one line \<^verbatim>\<open>f\<close>. The list is \<^verbatim>\<open>[f]\<close>;
  the slice taken after the second load, which read \<^verbatim>\<open>[c, d, e]\<close>, reads \<^verbatim>\<open>[f, d, e]\<close>;
  the slice taken after the first load, which the second load had overwritten to
  \<^verbatim>\<open>[c, d]\<close>, is on the array the list has left and still reads \<^verbatim>\<open>[c, d]\<close>.\<close>

theorem reload_reuses_backing_array_witness:
  "Stat (file_at 300 ''f\<newline>'') (path (snd loaded_cde)) = Inr 300
   \<and> mtime (snd loaded_cde) < 300
   \<and> ReadFile (file_at 300 ''f\<newline>'') (path (snd loaded_cde)) = Inr ''f\<newline>''
   \<and> valid (fst loaded_cde) (items (snd loaded_cde))
   \<and> valid (fst loaded_cde) (items (snd loaded_ab))
   \<and> elems (fst (read go_grow (file_at 300 ''f\<newline>'') loaded_cde))
           (items (snd (read go_grow (file_at 300 ''f\<newline>'') loaded_cde))) = [''f'']
   \<and> elems (fst loaded_cde) (items (snd loaded_cde)) = [''c'', ''d'', ''e'']
   \<and> elems (fst (read go_grow (file_at 300 ''f\<newline>'') loaded_cde)) (items (snd loaded_cde))
       = [''f'', ''d'', ''e'']
   \<and> elems (fst loaded_cde) (items (snd loaded_ab)) = [''c'', ''d'']
   \<and> elems (fst (read go_grow (file_at 300 ''f\<newline>'') loaded_cde)) (items (snd loaded_ab))
       = [''c'', ''d'']"
proof -
  have 1: "Stat (file_at 300 ''f\<newline>'') (path (snd loaded_cde)) = Inr 300"
    and 2: "mtime (snd loaded_cde) < 300"
    and 3: "ReadFile (file_at 300 ''f\<newline>'') (path (snd loaded_cde)) = Inr ''f\<newline>''"
    and 4: "valid (fst loaded_cde) (items (snd loaded_cde))"
    and 5: "valid (fst loaded_cde) (items (snd loaded_ab))"
    and 6: "elems (fst loaded_cde) (items (snd loaded_cde)) = [''c'', ''d'', ''e'']"
    and 7: "elems (fst loaded_cde) (items (snd loaded_ab)) = [''c'', ''d'']"
    by (simp_all add: loaded_cde_eq loaded_ab_eq file_at_def valid_def elems_def)
  have e: "entries ''f\<newline>'' = [''f'']"
    by (simp add: entries_def)
  have p: "(fst loaded_cde, snd loaded_cde) = loaded_cde"
    by simp
  have l: "len (items (snd loaded_cde)) = 3" "len (items (snd loaded_ab)) = 2"
    "ptr (items (snd loaded_cde)) = 2" "ptr (items (snd loaded_ab)) = 1"
    "cap (items (snd loaded_cde)) = 4"
    by (simp_all add: loaded_cde_eq loaded_ab_eq)
  show ?thesis
    using 1 2 3 4 5
      reload_reuses_backing_array [OF 1 2 3 4 4, of go_grow]
      reload_reuses_backing_array [OF 1 2 3 4 5, of go_grow]
    unfolding p e 6 7 by (simp add: l)
qed

text \<open>As the specification states it, the earlier sequence unchanged by a later reload,
  the property fails: the slice that read \<^verbatim>\<open>[a, b]\<close> reads \<^verbatim>\<open>[c, d]\<close> once the file with
  the lines \<^verbatim>\<open>c\<close> and \<^verbatim>\<open>d\<close> has been loaded.\<close>

theorem reload_overwrites_earlier_sequence:
  "elems (fst loaded_ab) (items (snd loaded_ab)) = [''a'', ''b'']
   \<and> elems (fst (read go_grow (file_at 200 ''c\<newline>d\<newline>'') loaded_ab)) (items (snd loaded_ab))
       = [''c'', ''d'']
   \<and> elems (fst (read go_grow (file_at 200 ''c\<newline>d\<newline>'') loaded_ab)) (items (snd loaded_ab))
       \<noteq> elems (fst loaded_ab) (items (snd loaded_ab))"
  by (simp add: loaded_ab_eq read_def file_at_def read_item_def append_go_def elems_def Let_def)

end
